theory Spec2Isabelle
  imports Main "HOL-Library.Word"
begin

unbundle bit_operations_syntax

section \<open>Data\<close>

text \<open>
  A Node.js \<open>Buffer\<close> is a sequence of bytes; a JavaScript string is a sequence of
  UTF-16 code units, and \<open>s[j]\<close> is the one-unit string at index \<open>j\<close>.  Both have
  \<open>slice(a, b)\<close>, which for \<open>0 \<le> a \<le> b\<close> gives the elements at the positions
  \<open>a \<le> k < min b length\<close>, and \<open>slice(a)\<close>, which gives the elements from \<open>a\<close> on.
\<close>

type_synonym byte = "8 word"
type_synonym buffer = "byte list"
type_synonym js_char = "16 word"
type_synonym js_string = "js_char list"

definition js_slice :: "'a list \<Rightarrow> nat \<Rightarrow> nat \<Rightarrow> 'a list" where
  "js_slice xs start stop = take (stop - start) (drop start xs)"

definition js_slice_from :: "'a list \<Rightarrow> nat \<Rightarrow> 'a list" where
  "js_slice_from xs start = drop start xs"

text \<open>The string literals of the source: \<open>"/"\<close>, \<open>"T"\<close>, \<open>"tab"\<close> and \<open>"enter"\<close>.\<close>

definition slash :: js_char where
  "slash = 0x2F"

definition str_T :: js_string where
  "str_T = [0x54]"

definition str_tab :: js_string where
  "str_tab = [0x74, 0x61, 0x62]"

definition str_enter :: js_string where
  "str_enter = [0x65, 0x6E, 0x74, 0x65, 0x72]"

section \<open>The scanner \<open>findNdefData\<close>\<close>

text \<open>
  First loop: \<open>for (let i = 0; i < data.length - 2; i++)\<close>.  The bound
  \<open>data.length - 2\<close> is a JavaScript number and may be negative, so the comparison is
  made on integers.  \<open>None\<close> means that the loop ran to its end without returning.
\<close>

function tlv_loop :: "buffer \<Rightarrow> nat \<Rightarrow> buffer option" where
  "tlv_loop data i =
     (if int i < int (length data) - 2 then
        (if data ! i = 0x03 then
           (let len = unat (data ! (i + 1)) in
            if i + 2 + len \<le> length data
            then Some (js_slice data (i + 2) (i + 2 + len))
            else tlv_loop data (i + 1))
         else tlv_loop data (i + 1))
      else None)"
  by pat_completeness auto
termination
  by (relation "measure (\<lambda>(data, i). length data - i)") auto

text \<open>
  Second loop: \<open>for (let i = 0; i < data.length - 3; i++)\<close>, looking for a record header
  with the Message-Begin bit and a Type-Name-Format between 1 and 6.
\<close>

function header_loop :: "buffer \<Rightarrow> nat \<Rightarrow> buffer option" where
  "header_loop data i =
     (if int i < int (length data) - 3 then
        (let headerByte = data ! i;
             mb = (headerByte AND 0x80 \<noteq> 0);
             tnf = headerByte AND 0x07
         in if mb \<and> tnf \<ge> 0x01 \<and> tnf \<le> 0x06
            then Some (js_slice_from data i)
            else header_loop data (i + 1))
      else None)"
  by pat_completeness auto
termination
  by (relation "measure (\<lambda>(data, i). length data - i)") auto

declare tlv_loop.simps [simp del] header_loop.simps [simp del]

text \<open>\<open>findNdefData\<close> returns a buffer, or \<open>null\<close> (here \<open>None\<close>).\<close>

definition findNdefData :: "buffer \<Rightarrow> buffer option" where
  "findNdefData data =
     (case tlv_loop data 0 of
        Some msg \<Rightarrow> Some msg
      | None \<Rightarrow> header_loop data 0)"

subsection \<open>The scanner's contract in the words of the specification\<close>

text \<open>
  A valid NDEF TLV at position \<open>p\<close>: the byte \<open>0x03\<close> there, a length byte \<open>L\<close> after it,
  and \<open>p + 2 + L \<le> length data\<close>.
\<close>

definition valid_tlv_at :: "buffer \<Rightarrow> nat \<Rightarrow> bool" where
  "valid_tlv_at data p \<longleftrightarrow>
     p + 1 < length data \<and> data ! p = 0x03 \<and> p + 2 + unat (data ! (p + 1)) \<le> length data"

text \<open>
  A record header byte: the top bit (Message-Begin) set and the low three bits
  (Type-Name-Format) in \<open>[1,6]\<close>.
\<close>

definition is_header_byte :: "byte \<Rightarrow> bool" where
  "is_header_byte b \<longleftrightarrow> bit b 7 \<and> 1 \<le> unat (take_bit 3 b) \<and> unat (take_bit 3 b) \<le> 6"

definition header_at :: "buffer \<Rightarrow> nat \<Rightarrow> bool" where
  "header_at data p \<longleftrightarrow> p < length data \<and> is_header_byte (data ! p)"

definition contains_valid_tlv :: "buffer \<Rightarrow> bool" where
  "contains_valid_tlv data \<longleftrightarrow> (\<exists>p<length data. valid_tlv_at data p)"

definition contains_header :: "buffer \<Rightarrow> bool" where
  "contains_header data \<longleftrightarrow> (\<exists>p<length data. header_at data p)"

definition leftmost_valid_tlv :: "buffer \<Rightarrow> nat \<Rightarrow> bool" where
  "leftmost_valid_tlv data p \<longleftrightarrow> valid_tlv_at data p \<and> (\<forall>q<p. \<not> valid_tlv_at data q)"

definition leftmost_header :: "buffer \<Rightarrow> nat \<Rightarrow> bool" where
  "leftmost_header data p \<longleftrightarrow> header_at data p \<and> (\<forall>q<p. \<not> header_at data q)"

section \<open>Keyboard replay\<close>

text \<open>
  The input-injection library is an external collaborator.  Each of its calls either
  returns, and the call is then appended to the trace of what was injected, or throws.
  Which calls throw is a parameter of the model: a predicate on the trace so far and
  the call.
\<close>

datatype js_error = KeyboardError | ReadError | DecodeError | PayloadError

type_synonym 'c injector = "'c list \<Rightarrow> 'c \<Rightarrow> bool"
type_synonym 'c injected = "(js_error \<times> 'c list) + 'c list"

definition emit :: "'c injector \<Rightarrow> 'c \<Rightarrow> 'c list \<Rightarrow> 'c injected" where
  "emit throws c tr = (if throws tr c then Inl (KeyboardError, tr) else Inr (tr @ [c]))"

definition reliable :: "'c injector" where
  "reliable = (\<lambda>tr c. False)"

definition never_throws :: "'c injector \<Rightarrow> bool" where
  "never_throws kb \<longleftrightarrow> (\<forall>tr c. \<not> kb tr c)"

subsection \<open>\<open>typeText\<close> of \<open>index.js\<close> (nut-js)\<close>

datatype key = Escape | Tab | Enter

datatype kbd_call = PressKey key | ReleaseKey key | TypeChar js_char

text \<open>\<open>await keyboard.pressKey(k); await keyboard.releaseKey(k);\<close>\<close>

definition tap :: "kbd_call injector \<Rightarrow> key \<Rightarrow> kbd_call list \<Rightarrow> kbd_call injected" where
  "tap kb k tr =
     (case emit kb (PressKey k) tr of
        Inl e \<Rightarrow> Inl e
      | Inr tr' \<Rightarrow> emit kb (ReleaseKey k) tr')"

text \<open>The inner loop \<open>for (let j = 0; j < chunk.length; j++)\<close>.\<close>

function chunk_loop ::
  "kbd_call injector \<Rightarrow> js_string \<Rightarrow> nat \<Rightarrow> kbd_call list \<Rightarrow> kbd_call injected" where
  "chunk_loop kb chunk j tr =
     (if j < length chunk then
        (let char = chunk ! j in
         case (if char = slash then tap kb Tab tr else emit kb (TypeChar char) tr) of
           Inl e \<Rightarrow> Inl e
         | Inr tr' \<Rightarrow> chunk_loop kb chunk (j + 1) tr')
      else Inr tr)"
  by pat_completeness auto
termination
  by (relation "measure (\<lambda>(kb, chunk, j, tr). length chunk - j)") auto

definition chunkSize :: nat where
  "chunkSize = 50"

text \<open>
  The outer loop \<open>for (let i = 0; i < text.length; i += chunkSize)\<close>; the
  \<open>setImmediate\<close> yield after each chunk injects nothing.
\<close>

function text_loop ::
  "kbd_call injector \<Rightarrow> js_string \<Rightarrow> nat \<Rightarrow> kbd_call list \<Rightarrow> kbd_call injected" where
  "text_loop kb text i tr =
     (if i < length text then
        (let chunk = js_slice text i (i + chunkSize) in
         case chunk_loop kb chunk 0 tr of
           Inl e \<Rightarrow> Inl e
         | Inr tr' \<Rightarrow> text_loop kb text (i + chunkSize) tr')
      else Inr tr)"
  by pat_completeness auto
termination
  by (relation "measure (\<lambda>(kb, text, i, tr). length text - i)") (auto simp: chunkSize_def)

declare chunk_loop.simps [simp del] text_loop.simps [simp del]

text \<open>The body of the \<open>try\<close> block of \<open>typeText\<close>.\<close>

definition typeText_try ::
  "kbd_call injector \<Rightarrow> js_string \<Rightarrow> bool \<Rightarrow> kbd_call list \<Rightarrow> kbd_call injected" where
  "typeText_try kb text pressEnter tr =
     (case tap kb Escape tr of
        Inl e \<Rightarrow> Inl e
      | Inr tr1 \<Rightarrow>
          (case text_loop kb text 0 tr1 of
             Inl e \<Rightarrow> Inl e
           | Inr tr2 \<Rightarrow> if pressEnter then tap kb Enter tr2 else Inr tr2))"

subsection \<open>\<open>typeText\<close> of the robotjs variant\<close>

datatype robot_call = KeyTap js_string | TypeString js_string

text \<open>
  The closure \<open>type\<close>: a \<open>while\<close> loop over the shared index \<open>i\<close> that, after every
  tenth character, reschedules itself with \<open>setImmediate(type)\<close> and returns; the
  rescheduled call continues at the same index.
\<close>

function type_batches ::
  "robot_call injector \<Rightarrow> js_string \<Rightarrow> bool \<Rightarrow> nat \<Rightarrow> robot_call list \<Rightarrow> robot_call injected"
  where
  "type_batches rb text pressEnter i tr =
     (if i < length text then
        (let char = text ! i; i' = i + 1 in
         case (if char = slash then emit rb (KeyTap str_tab) tr
               else emit rb (TypeString [char]) tr) of
           Inl e \<Rightarrow> Inl e
         | Inr tr' \<Rightarrow>
             if i' mod 10 = 0 then type_batches rb text pressEnter i' tr'
             else type_batches rb text pressEnter i' tr')
      else if pressEnter then emit rb (KeyTap str_enter) tr
      else Inr tr)"
  by pat_completeness auto
termination
  by (relation "measure (\<lambda>(rb, text, pressEnter, i, tr). length text - i)") auto

declare type_batches.simps [simp del]

definition typeText_robot ::
  "robot_call injector \<Rightarrow> js_string \<Rightarrow> bool \<Rightarrow> robot_call list \<Rightarrow> robot_call injected" where
  "typeText_robot rb text pressEnter tr = type_batches rb text pressEnter 0 tr"

subsection \<open>The replay policy in the words of the specification\<close>

text \<open>
  One keystroke per character, in order: Tab for a forward slash, the character itself
  otherwise; then Enter if and only if \<open>autoEnter\<close> is set.  A keystroke of a named key
  is a press followed by a release with nut-js, and one \<open>keyTap\<close> with robotjs.
\<close>

definition keystroke :: "js_char \<Rightarrow> kbd_call list" where
  "keystroke c = (if c = slash then [PressKey Tab, ReleaseKey Tab] else [TypeChar c])"

definition replay_spec :: "js_string \<Rightarrow> bool \<Rightarrow> kbd_call list" where
  "replay_spec text autoEnter =
     concat (map keystroke text) @ (if autoEnter then [PressKey Enter, ReleaseKey Enter] else [])"

definition keystroke_robot :: "js_char \<Rightarrow> robot_call" where
  "keystroke_robot c = (if c = slash then KeyTap str_tab else TypeString [c])"

definition replay_spec_robot :: "js_string \<Rightarrow> bool \<Rightarrow> robot_call list" where
  "replay_spec_robot text autoEnter =
     map keystroke_robot text @ (if autoEnter then [KeyTap str_enter] else [])"

section \<open>The card session controller of \<open>index.js\<close>\<close>

text \<open>
  The \<open>ndef\<close> package and the reader driver are external collaborators.  A decoded
  record has a Type-Name-Format, a type (a string), an id and a payload;
  \<open>ndef.decodeMessage\<close> and \<open>ndef.text.decodePayload\<close> return or throw, and are
  parameters of the model, as is the behaviour of the keyboard.
\<close>

type_synonym uid = js_string

record ndef_record =
  tnf :: nat
  rtype :: js_string
  rid :: buffer
  payload :: buffer

record decoders =
  decodeMessage :: "buffer \<Rightarrow> js_error + ndef_record list"
  decodePayload :: "buffer \<Rightarrow> js_error + js_string"

record collaborators = decoders +
  keyboard :: "kbd_call injector"

text \<open>The lines the program writes to the console.\<close>

datatype console_line =
    CardDetected uid
  | IgnoringDuplicate
  | ReadingTag
  | NoValidNdef
  | NoTextRecords
  | TextFound js_string
  | TypingText
  | ReadyForNextCard
  | ErrorLine js_error
  | TypingError js_error
  | CardRemoved uid

text \<open>
  The module-level variables \<open>lastProcessedCard\<close> and \<open>processingCard\<close>, with the
  console and the keyboard calls made so far.
\<close>

record session =
  processingCard :: bool
  lastProcessedCard :: "uid option"
  console :: "console_line list"
  injected :: "kbd_call list"

definition initial :: session where
  "initial = \<lparr>processingCard = False, lastProcessedCard = None, console = [], injected = []\<rparr>"

definition say :: "console_line \<Rightarrow> session \<Rightarrow> session" where
  "say line s = s\<lparr>console := console s @ [line]\<rparr>"

definition autoEnter :: bool where
  "autoEnter = True"

text \<open>
  \<open>typeText\<close> returns a promise.  Both the end of the \<open>try\<close> block and the \<open>catch\<close>
  block call \<open>resolve()\<close>; the \<open>catch\<close> block writes the error to the console first.
\<close>

datatype promise = Resolved | Rejected js_error

definition typeText ::
  "kbd_call injector \<Rightarrow> js_string \<Rightarrow> bool \<Rightarrow> session \<Rightarrow> promise \<times> session" where
  "typeText kb text pressEnter s =
     (case typeText_try kb text pressEnter (injected s) of
        Inr tr \<Rightarrow> (Resolved, s\<lparr>injected := tr\<rparr>)
      | Inl (error, tr) \<Rightarrow> (Resolved, say (TypingError error) (s\<lparr>injected := tr\<rparr>)))"

text \<open>
  The \<open>"card"\<close> handler is an \<open>async\<close> function.  Its first segment runs when the event
  is delivered and ends at the guard's \<open>return\<close> or at \<open>await reader.read(4, 256)\<close>;
  the result says whether the handler is now suspended at the read.
\<close>

definition on_card :: "uid \<Rightarrow> session \<Rightarrow> bool \<times> session" where
  "on_card cardId s =
     (let s1 = say (CardDetected cardId) s in
      if processingCard s1 \<or> lastProcessedCard s1 = Some cardId
      then (False, say IgnoringDuplicate s1)
      else (True, say ReadingTag (s1\<lparr>processingCard := True, lastProcessedCard := Some cardId\<rparr>)))"

text \<open>The \<open>catch (err)\<close> block.\<close>

definition catch_block :: "js_error \<Rightarrow> session \<Rightarrow> session" where
  "catch_block err s = (say (ErrorLine err) s)\<lparr>processingCard := False\<rparr>"

text \<open>\<open>records.filter((record) => record.type === "T")\<close>\<close>

definition textRecords :: "ndef_record list \<Rightarrow> ndef_record list" where
  "textRecords records = filter (\<lambda>record. rtype record = str_T) records"

text \<open>
  The second segment runs when the read settles, with the bytes read or with the
  error thrown, and goes on to the handler's return.  \<open>await typeText(...)\<close> is part of
  it: the handler touches neither variable while it waits for the typing.  The result
  says whether the segment ended by scheduling the one-second timer.
\<close>

definition on_read_settled :: "collaborators \<Rightarrow> js_error + buffer \<Rightarrow> session \<Rightarrow> bool \<times> session"
  where
  "on_read_settled env settled s =
     (case settled of
        Inl err \<Rightarrow> (False, catch_block err s)
      | Inr data \<Rightarrow>
          (case findNdefData data of
             None \<Rightarrow> (False, (say NoValidNdef s)\<lparr>processingCard := False\<rparr>)
           | Some ndefData \<Rightarrow>
               (case decodeMessage env ndefData of
                  Inl err \<Rightarrow> (False, catch_block err s)
                | Inr records \<Rightarrow>
                    if length (textRecords records) = 0
                    then (False, (say NoTextRecords s)\<lparr>processingCard := False\<rparr>)
                    else
                      (case decodePayload env (payload (textRecords records ! 0)) of
                         Inl err \<Rightarrow> (False, catch_block err s)
                       | Inr text \<Rightarrow>
                           (case typeText (keyboard env) text autoEnter
                                   (say TypingText (say (TextFound text) s)) of
                              (Resolved, s') \<Rightarrow> (True, s')
                            | (Rejected err, s') \<Rightarrow> (False, catch_block err s'))))))"

text \<open>The timer callback.\<close>

definition on_timer :: "session \<Rightarrow> session" where
  "on_timer s = say ReadyForNextCard (s\<lparr>processingCard := False\<rparr>)"

text \<open>The \<open>"card.off"\<close> handler.\<close>

definition on_card_off :: "uid \<Rightarrow> session \<Rightarrow> session" where
  "on_card_off cardId s =
     (let s1 = say (CardRemoved cardId) s in
      if lastProcessedCard s1 = Some cardId then s1\<lparr>lastProcessedCard := None\<rparr> else s1)"

text \<open>
  What the event loop delivers: the reader's two events, the settling of a pending
  read and the firing of a pending timer.
\<close>

datatype event = Card uid | CardOff uid | ReadSettled "js_error + buffer" | TimerFired

fun step :: "collaborators \<Rightarrow> session \<Rightarrow> event \<Rightarrow> session" where
  "step env s (Card cardId) = snd (on_card cardId s)"
| "step env s (CardOff cardId) = on_card_off cardId s"
| "step env s (ReadSettled settled) = snd (on_read_settled env settled s)"
| "step env s TimerFired = on_timer s"

definition run :: "collaborators \<Rightarrow> session \<Rightarrow> event list \<Rightarrow> session" where
  "run env s evs = foldl (step env) s evs"

text \<open>The cards for which a sequence of events starts the pipeline, in order.\<close>

fun started :: "collaborators \<Rightarrow> session \<Rightarrow> event list \<Rightarrow> uid list" where
  "started env s [] = []"
| "started env s (Card cardId # evs) =
     (if fst (on_card cardId s) then [cardId] else []) @ started env (step env s (Card cardId)) evs"
| "started env s (ev # evs) = started env (step env s ev) evs"

text \<open>
  The runtime delivers a read's settling only to a handler suspended at a read, and
  fires a timer only after it was scheduled.  \<open>deliver\<close> runs a sequence of events
  while counting the handlers suspended at a read and the timers scheduled, and is
  \<open>None\<close> for a sequence the runtime cannot deliver.
\<close>

fun deliver ::
  "collaborators \<Rightarrow> session \<Rightarrow> nat \<Rightarrow> nat \<Rightarrow> event list \<Rightarrow> (session \<times> nat \<times> nat) option" where
  "deliver env s reads timers [] = Some (s, reads, timers)"
| "deliver env s reads timers (Card cardId # evs) =
     deliver env (step env s (Card cardId))
       (if fst (on_card cardId s) then reads + 1 else reads) timers evs"
| "deliver env s reads timers (CardOff cardId # evs) =
     deliver env (step env s (CardOff cardId)) reads timers evs"
| "deliver env s reads timers (ReadSettled settled # evs) =
     (if reads > 0
      then deliver env (step env s (ReadSettled settled)) (reads - 1)
             (if fst (on_read_settled env settled s) then timers + 1 else timers) evs
      else None)"
| "deliver env s reads timers (TimerFired # evs) =
     (if timers > 0 then deliver env (step env s TimerFired) reads (timers - 1) evs else None)"

definition deliverable :: "collaborators \<Rightarrow> session \<Rightarrow> nat \<Rightarrow> nat \<Rightarrow> event list \<Rightarrow> bool" where
  "deliverable env s reads timers evs \<longleftrightarrow> deliver env s reads timers evs \<noteq> None"

section \<open>The card handler of the robotjs variant\<close>

text \<open>
  This variant has no module-level variables.  Its state is the console and the calls
  of \<open>typeText\<close> made so far, each of which schedules a replay of its text.  There is no
  \<open>"card.off"\<close> handler and no one-second timer.
\<close>

record session_robot =
  console_robot :: "console_line list"
  replays :: "(js_string \<times> bool) list"

definition initial_robot :: session_robot where
  "initial_robot = \<lparr>console_robot = [], replays = []\<rparr>"

definition say_robot :: "console_line \<Rightarrow> session_robot \<Rightarrow> session_robot" where
  "say_robot line s = s\<lparr>console_robot := console_robot s @ [line]\<rparr>"

definition on_card_robot :: "uid \<Rightarrow> session_robot \<Rightarrow> bool \<times> session_robot" where
  "on_card_robot cardId s = (True, say_robot ReadingTag (say_robot (CardDetected cardId) s))"

definition on_read_settled_robot ::
  "'a decoders_scheme \<Rightarrow> js_error + buffer \<Rightarrow> session_robot \<Rightarrow> session_robot" where
  "on_read_settled_robot env settled s =
     (case settled of
        Inl err \<Rightarrow> say_robot (ErrorLine err) s
      | Inr data \<Rightarrow>
          (case findNdefData data of
             None \<Rightarrow> say_robot NoValidNdef s
           | Some ndefData \<Rightarrow>
               (case decodeMessage env ndefData of
                  Inl err \<Rightarrow> say_robot (ErrorLine err) s
                | Inr records \<Rightarrow>
                    if length (textRecords records) = 0
                    then say_robot NoTextRecords s
                    else
                      (case decodePayload env (payload (textRecords records ! 0)) of
                         Inl err \<Rightarrow> say_robot (ErrorLine err) s
                       | Inr text \<Rightarrow>
                           (say_robot TypingText (say_robot (TextFound text) s))
                             \<lparr>replays := replays s @ [(text, autoEnter)]\<rparr>))))"

fun step_robot :: "'a decoders_scheme \<Rightarrow> session_robot \<Rightarrow> event \<Rightarrow> session_robot" where
  "step_robot env s (Card cardId) = snd (on_card_robot cardId s)"
| "step_robot env s (ReadSettled settled) = on_read_settled_robot env settled s"
| "step_robot env s ev = s"

fun started_robot :: "'a decoders_scheme \<Rightarrow> session_robot \<Rightarrow> event list \<Rightarrow> uid list" where
  "started_robot env s [] = []"
| "started_robot env s (Card cardId # evs) =
     (if fst (on_card_robot cardId s) then [cardId] else [])
       @ started_robot env (step_robot env s (Card cardId)) evs"
| "started_robot env s (ev # evs) = started_robot env (step_robot env s ev) evs"

text \<open>The cards presented by a sequence of events, in order.\<close>

fun cards_of :: "event list \<Rightarrow> uid list" where
  "cards_of [] = []"
| "cards_of (Card cardId # evs) = cardId # cards_of evs"
| "cards_of (ev # evs) = cards_of evs"

subsection \<open>Concrete tags and concrete collaborators\<close>

text \<open>
  Three tags.  The first is the tag of the specification's scenario: TLV \<open>0x03\<close> of
  length 9 holding one short record with header \<open>0xD1\<close> (Type-Name-Format 1,
  well-known), type \<open>T\<close> and payload \<open>0x02 "en" "hi"\<close>, then the terminator \<open>0xFE\<close>.
  The second differs in the header only, \<open>0xD2\<close> (Type-Name-Format 2, media type).  The
  third holds a well-known record of type \<open>U\<close>.  The decoders below stand for the
  \<open>ndef\<close> package on these three messages only.
\<close>

definition hi_payload :: buffer where
  "hi_payload = [0x02, 0x65, 0x6E, 0x68, 0x69]"

definition hi_message :: buffer where
  "hi_message = [0xD1, 0x01, 0x05, 0x54] @ hi_payload"

definition hi_tag :: buffer where
  "hi_tag = [0x03, 0x09] @ hi_message @ [0xFE]"

definition media_message :: buffer where
  "media_message = [0xD2, 0x01, 0x05, 0x54] @ hi_payload"

definition media_tag :: buffer where
  "media_tag = [0x03, 0x09] @ media_message @ [0xFE]"

definition uri_payload :: buffer where
  "uri_payload = [0x01, 0x61, 0x2E, 0x62]"

definition uri_message :: buffer where
  "uri_message = [0xD1, 0x01, 0x04, 0x55] @ uri_payload"

definition uri_tag :: buffer where
  "uri_tag = [0x03, 0x08] @ uri_message @ [0xFE]"

definition str_hi :: js_string where
  "str_hi = [0x68, 0x69]"

definition str_U :: js_string where
  "str_U = [0x55]"

definition hi_record :: ndef_record where
  "hi_record = \<lparr>tnf = 1, rtype = str_T, rid = [], payload = hi_payload\<rparr>"

definition media_record :: ndef_record where
  "media_record = \<lparr>tnf = 2, rtype = str_T, rid = [], payload = hi_payload\<rparr>"

definition uri_record :: ndef_record where
  "uri_record = \<lparr>tnf = 1, rtype = str_U, rid = [], payload = uri_payload\<rparr>"

definition tag_decoders :: collaborators where
  "tag_decoders =
     \<lparr>decodeMessage = (\<lambda>b. if b = hi_message then Inr [hi_record]
                            else if b = media_message then Inr [media_record]
                            else if b = uri_message then Inr [uri_record]
                            else Inl DecodeError),
      decodePayload = (\<lambda>b. if b = hi_payload then Inr str_hi else Inl PayloadError),
      keyboard = reliable\<rparr>"

definition card_A :: uid where
  "card_A = [0x41]"

definition card_B :: uid where
  "card_B = [0x42]"

section \<open>Properties of the scanner\<close>

lemma message_begin_bit: "((b::byte) AND 0x80 \<noteq> 0) = bit b 7"
proof -
  have "(0x80::byte) = 2 ^ 7" by simp
  then show ?thesis by (simp only: and_exp_eq_0_iff_not_bit) simp
qed

lemma tnf_bits: "(b::byte) AND 0x07 = take_bit 3 b"
proof -
  have "(0x07::byte) = mask 3" by (simp add: mask_eq_exp_minus_1)
  then show ?thesis by (simp only: take_bit_eq_mask)
qed

lemma header_test:
  "((b::byte) AND 0x80 \<noteq> 0 \<and> b AND 0x07 \<ge> 0x01 \<and> b AND 0x07 \<le> 0x06) = is_header_byte b"
  unfolding is_header_byte_def
  by (simp only: message_begin_bit tnf_bits word_le_nat_alt) simp

lemma tlv_loop_skip:
  assumes "i + 2 < length data" "\<not> valid_tlv_at data i"
  shows "tlv_loop data i = tlv_loop data (i + 1)"
  using assms by (subst tlv_loop.simps) (auto simp: valid_tlv_at_def Let_def)

lemma tlv_loop_hit:
  assumes "i + 2 < length data" "valid_tlv_at data i"
  shows "tlv_loop data i = Some (take (unat (data ! (i + 1))) (drop (i + 2) data))"
  using assms by (subst tlv_loop.simps) (auto simp: valid_tlv_at_def Let_def js_slice_def)

lemma tlv_loop_end:
  assumes "length data \<le> i + 2"
  shows "tlv_loop data i = None"
  using assms by (subst tlv_loop.simps) auto

lemma tlv_loop_leftmost:
  assumes "valid_tlv_at data p" "p + 2 < length data"
    and "\<forall>q. i \<le> q \<and> q < p \<longrightarrow> \<not> valid_tlv_at data q" "i \<le> p"
  shows "tlv_loop data i = Some (take (unat (data ! (p + 1))) (drop (p + 2) data))"
  using assms
proof (induction "p - i" arbitrary: i)
  case 0
  then have "i = p" by simp
  with 0 show ?case by (simp add: tlv_loop_hit)
next
  case (Suc n)
  then have lt: "i < p" by simp
  with Suc.prems have "\<not> valid_tlv_at data i" by simp
  moreover from lt Suc.prems have "i + 2 < length data" by simp
  ultimately have "tlv_loop data i = tlv_loop data (i + 1)" by (rule tlv_loop_skip[rotated])
  moreover have "tlv_loop data (i + 1) = Some (take (unat (data ! (p + 1))) (drop (p + 2) data))"
    using Suc.hyps(2) Suc.prems lt by (intro Suc.hyps(1)) auto
  ultimately show ?case by simp
qed

lemma tlv_loop_none:
  assumes "\<forall>q. i \<le> q \<and> q + 2 < length data \<longrightarrow> \<not> valid_tlv_at data q"
  shows "tlv_loop data i = None"
  using assms
proof (induction "length data - i" arbitrary: i)
  case 0
  then show ?case by (simp add: tlv_loop_end)
next
  case (Suc n)
  show ?case
  proof (cases "i + 2 < length data")
    case True
    with Suc.prems have "tlv_loop data i = tlv_loop data (i + 1)"
      by (simp add: tlv_loop_skip)
    moreover have "tlv_loop data (i + 1) = None"
      using Suc.hyps(2) Suc.prems by (intro Suc.hyps(1)) auto
    ultimately show ?thesis by simp
  next
    case False
    then show ?thesis by (simp add: tlv_loop_end)
  qed
qed

lemma header_loop_skip:
  assumes "i + 3 < length data" "\<not> is_header_byte (data ! i)"
  shows "header_loop data i = header_loop data (i + 1)"
  using assms by (subst header_loop.simps) (simp add: Let_def header_test)

lemma header_loop_hit:
  assumes "i + 3 < length data" "is_header_byte (data ! i)"
  shows "header_loop data i = Some (drop i data)"
  using assms
  by (subst header_loop.simps) (simp add: Let_def header_test js_slice_from_def)

lemma header_loop_end:
  assumes "length data \<le> i + 3"
  shows "header_loop data i = None"
  using assms by (subst header_loop.simps) auto

lemma header_loop_leftmost:
  assumes "is_header_byte (data ! p)" "p + 3 < length data"
    and "\<forall>q. i \<le> q \<and> q < p \<longrightarrow> \<not> is_header_byte (data ! q)" "i \<le> p"
  shows "header_loop data i = Some (drop p data)"
  using assms
proof (induction "p - i" arbitrary: i)
  case 0
  then have "i = p" by simp
  with 0 show ?case by (simp add: header_loop_hit)
next
  case (Suc n)
  then have lt: "i < p" by simp
  with Suc.prems have "\<not> is_header_byte (data ! i)" by simp
  moreover from lt Suc.prems have "i + 3 < length data" by simp
  ultimately have "header_loop data i = header_loop data (i + 1)"
    by (rule header_loop_skip[rotated])
  moreover have "header_loop data (i + 1) = Some (drop p data)"
    using Suc.hyps(2) Suc.prems lt by (intro Suc.hyps(1)) auto
  ultimately show ?case by simp
qed

lemma header_loop_none:
  assumes "\<forall>q. i \<le> q \<and> q + 3 < length data \<longrightarrow> \<not> is_header_byte (data ! q)"
  shows "header_loop data i = None"
  using assms
proof (induction "length data - i" arbitrary: i)
  case 0
  then show ?case by (simp add: header_loop_end)
next
  case (Suc n)
  show ?case
  proof (cases "i + 3 < length data")
    case True
    with Suc.prems have "header_loop data i = header_loop data (i + 1)"
      by (simp add: header_loop_skip)
    moreover have "header_loop data (i + 1) = None"
      using Suc.hyps(2) Suc.prems by (intro Suc.hyps(1)) auto
    ultimately show ?thesis by simp
  next
    case False
    then show ?thesis by (simp add: header_loop_end)
  qed
qed


lemma ex_less_upt: "(\<exists>p<n. P p) = list_ex P [0..<n]"
  by (auto simp: list_ex_iff)

lemma all_less_upt: "(\<forall>p<n. P p) = list_all P [0..<n]"
  by (auto simp: list_all_iff)

lemma contains_valid_tlv_code [code]:
  "contains_valid_tlv data = list_ex (valid_tlv_at data) [0..<length data]"
  by (simp add: contains_valid_tlv_def ex_less_upt)

lemma contains_header_code [code]:
  "contains_header data = list_ex (header_at data) [0..<length data]"
  by (simp add: contains_header_def ex_less_upt)

lemma leftmost_valid_tlv_code [code]:
  "leftmost_valid_tlv data p =
     (valid_tlv_at data p \<and> list_all (\<lambda>q. \<not> valid_tlv_at data q) [0..<p])"
  by (simp add: leftmost_valid_tlv_def all_less_upt)

lemma leftmost_header_code [code]:
  "leftmost_header data p = (header_at data p \<and> list_all (\<lambda>q. \<not> header_at data q) [0..<p])"
  by (simp add: leftmost_header_def all_less_upt)

lemma no_valid_tlv: "\<not> contains_valid_tlv data \<Longrightarrow> \<not> valid_tlv_at data q"
  by (auto simp: contains_valid_tlv_def valid_tlv_at_def)

lemma no_header: "\<not> contains_header data \<Longrightarrow> q < length data \<Longrightarrow> \<not> is_header_byte (data ! q)"
  by (auto simp: contains_header_def header_at_def)

text \<open>
  Claim C1, as amended.  When the leftmost valid NDEF TLV of a buffer (a byte \<open>0x03\<close> at
  \<open>p\<close> whose length byte \<open>L\<close> satisfies \<open>p + 2 + L \<le> length data\<close>) starts before
  the last two bytes, that is \<open>p + 2 < length data\<close>, \<open>findNdefData\<close> returns exactly the
  \<open>L\<close> bytes at the positions \<open>[p + 2, p + 2 + L)\<close>.  A \<open>0x03\<close> visited by the scan
  whose length byte would overrun the buffer is skipped, and the scan goes on from the next
  byte.
\<close>

theorem findNdefData_leftmost_tlv:
  "(leftmost_valid_tlv data p \<and> p + 2 < length data \<longrightarrow>
      findNdefData data = Some (take (unat (data ! (p + 1))) (drop (p + 2) data)) \<and>
      length (take (unat (data ! (p + 1))) (drop (p + 2) data)) = unat (data ! (p + 1))) \<and>
   (i + 2 < length data \<and> data ! i = 0x03 \<and> length data < i + 2 + unat (data ! (i + 1)) \<longrightarrow>
      tlv_loop data i = tlv_loop data (i + 1))"
proof (intro conjI impI)
  assume h: "leftmost_valid_tlv data p \<and> p + 2 < length data"
  then have "tlv_loop data 0 = Some (take (unat (data ! (p + 1))) (drop (p + 2) data))"
    by (intro tlv_loop_leftmost) (auto simp: leftmost_valid_tlv_def)
  then show "findNdefData data = Some (take (unat (data ! (p + 1))) (drop (p + 2) data))"
    by (simp add: findNdefData_def)
  from h show "length (take (unat (data ! (p + 1))) (drop (p + 2) data)) = unat (data ! (p + 1))"
    by (auto simp: leftmost_valid_tlv_def valid_tlv_at_def)
next
  assume "i + 2 < length data \<and> data ! i = 0x03 \<and> length data < i + 2 + unat (data ! (i + 1))"
  then show "tlv_loop data i = tlv_loop data (i + 1)"
    by (intro tlv_loop_skip) (auto simp: valid_tlv_at_def)
qed

theorem findNdefData_leftmost_tlv_witness:
  "leftmost_valid_tlv [0x03, 0x05, 0x03, 0x01, 0xAA, 0xD1] 2 \<and>
   findNdefData [0x03, 0x05, 0x03, 0x01, 0xAA, 0xD1] = Some [0xAA] \<and>
   tlv_loop [0x03, 0x05, 0x03, 0x01, 0xAA, 0xD1] 0 = tlv_loop [0x03, 0x05, 0x03, 0x01, 0xAA, 0xD1] 1"
proof -
  let ?d = "[0x03, 0x05, 0x03, 0x01, 0xAA, 0xD1] :: buffer"
  have l: "leftmost_valid_tlv ?d 2" by code_simp
  show ?thesis
    using l findNdefData_leftmost_tlv [of ?d 2 0] by simp
qed

text \<open>
  The claim as first stated asks for the \<open>L\<close> bytes for every valid TLV.  A \<open>0x03\<close> in
  the second-to-last byte with length 0 is valid in that sense, and the loop bound
  \<open>i < data.length - 2\<close> never visits it.
\<close>

theorem findNdefData_tlv_counterexample:
  "leftmost_valid_tlv [0x00, 0x03, 0x00] 1 \<and> findNdefData [0x00, 0x03, 0x00] = None"
  by code_simp

text \<open>
  Claim C6, as amended.  For a buffer with no valid \<open>0x03\<close> TLV whose leftmost record
  header byte (Message-Begin set, Type-Name-Format in \<open>[1,6]\<close>) lies at a position \<open>p\<close>
  with \<open>p + 3 < length data\<close>, \<open>findNdefData\<close> returns the suffix that starts at \<open>p\<close>.
\<close>

theorem findNdefData_header_suffix:
  assumes "\<not> contains_valid_tlv data" and "leftmost_header data p" and "p + 3 < length data"
  shows "findNdefData data = Some (drop p data)"
proof -
  have "tlv_loop data 0 = None"
    using assms(1) by (intro tlv_loop_none) (simp add: no_valid_tlv)
  moreover have "header_loop data 0 = Some (drop p data)"
    using assms(2,3) by (intro header_loop_leftmost) (auto simp: leftmost_header_def header_at_def)
  ultimately show ?thesis by (simp add: findNdefData_def)
qed

theorem findNdefData_header_suffix_witness:
  "\<not> contains_valid_tlv [0x00, 0xD1, 0x01, 0x05, 0x54] \<and>
   leftmost_header [0x00, 0xD1, 0x01, 0x05, 0x54] 1 \<and>
   findNdefData [0x00, 0xD1, 0x01, 0x05, 0x54] = Some [0xD1, 0x01, 0x05, 0x54]"
proof -
  let ?d = "[0x00, 0xD1, 0x01, 0x05, 0x54] :: buffer"
  have t: "\<not> contains_valid_tlv ?d" by code_simp
  have h: "leftmost_header ?d 1" by code_simp
  show ?thesis
    using t h findNdefData_header_suffix [of ?d 1] by simp
qed

text \<open>
  A header byte among the last three bytes is not found: the loop bound is
  \<open>i < data.length - 3\<close>.
\<close>

theorem findNdefData_header_counterexample:
  "\<not> contains_valid_tlv [0xD1, 0x01, 0x00] \<and> leftmost_header [0xD1, 0x01, 0x00] 0 \<and>
   findNdefData [0xD1, 0x01, 0x00] = None"
  by code_simp

section \<open>Properties of the replay\<close>

lemma never_throws_reliable: "never_throws reliable"
  by (simp add: never_throws_def reliable_def)

lemma emit_never_throws: "never_throws kb \<Longrightarrow> emit kb c tr = Inr (tr @ [c])"
  by (simp add: never_throws_def emit_def)

lemma tap_never_throws: "never_throws kb \<Longrightarrow> tap kb k tr = Inr (tr @ [PressKey k, ReleaseKey k])"
  by (simp add: tap_def emit_never_throws)

lemma chunk_loop_never_throws:
  assumes "never_throws kb"
  shows "chunk_loop kb chunk j tr = Inr (tr @ concat (map keystroke (drop j chunk)))"
proof (induction "length chunk - j" arbitrary: j tr)
  case 0
  then show ?case by (subst chunk_loop.simps) simp
next
  case (Suc n)
  then have lt: "j < length chunk" by simp
  have rest: "chunk_loop kb chunk (Suc j) tr' =
      Inr (tr' @ concat (map keystroke (drop (Suc j) chunk)))" for tr'
    using Suc.hyps(2) by (intro Suc.hyps(1)) simp
  have split: "drop j chunk = chunk ! j # drop (Suc j) chunk"
    using lt by (simp add: Cons_nth_drop_Suc)
  show ?case
    using lt assms
    by (subst chunk_loop.simps)
      (simp add: Let_def rest split keystroke_def tap_never_throws emit_never_throws)
qed

lemma text_loop_never_throws:
  assumes "never_throws kb"
  shows "text_loop kb text i tr = Inr (tr @ concat (map keystroke (drop i text)))"
proof (induction "length text - i" arbitrary: i tr rule: less_induct)
  case less
  show ?case
  proof (cases "i < length text")
    case True
    have rest: "text_loop kb text (i + chunkSize) tr' =
        Inr (tr' @ concat (map keystroke (drop (i + chunkSize) text)))" for tr'
      using True by (intro less.hyps) (simp add: chunkSize_def)
    have "concat (map keystroke (take chunkSize (drop i text))) @
          concat (map keystroke (drop chunkSize (drop i text))) =
          concat (map keystroke (drop i text))"
      by (simp only: concat_append [symmetric] map_append [symmetric] append_take_drop_id)
    then have join: "concat (map keystroke (take chunkSize (drop i text))) @
          concat (map keystroke (drop (i + chunkSize) text)) =
          concat (map keystroke (drop i text))"
      by (simp add: add.commute)
    show ?thesis
      using True assms
      by (subst text_loop.simps)
        (simp add: Let_def js_slice_def chunk_loop_never_throws rest join)
  next
    case False
    then show ?thesis by (subst text_loop.simps) simp
  qed
qed

lemma typeText_try_never_throws:
  assumes "never_throws kb"
  shows "typeText_try kb text pressEnter tr =
    Inr (tr @ [PressKey Escape, ReleaseKey Escape] @ replay_spec text pressEnter)"
  using assms
  by (simp add: typeText_try_def tap_never_throws text_loop_never_throws replay_spec_def)

lemma type_batches_never_throws:
  assumes "never_throws rb"
  shows "type_batches rb text pressEnter i tr =
    Inr (tr @ map keystroke_robot (drop i text) @ (if pressEnter then [KeyTap str_enter] else []))"
proof (induction "length text - i" arbitrary: i tr)
  case 0
  then show ?case
    using assms by (subst type_batches.simps) (simp add: emit_never_throws)
next
  case (Suc n)
  then have lt: "i < length text" by simp
  have rest: "type_batches rb text pressEnter (Suc i) tr' =
      Inr (tr' @ map keystroke_robot (drop (Suc i) text) @
           (if pressEnter then [KeyTap str_enter] else []))" for tr'
    using Suc.hyps(2) by (intro Suc.hyps(1)) simp
  have split: "drop i text = text ! i # drop (Suc i) text"
    using lt by (simp add: Cons_nth_drop_Suc)
  show ?case
    using lt assms
    by (subst type_batches.simps)
      (simp add: Let_def rest split keystroke_robot_def emit_never_throws)
qed

text \<open>
  Claim C2, as amended.  While no keyboard call throws, \<open>typeText\<close> of \<open>index.js\<close> first
  injects one Escape keystroke and then exactly one keystroke per character of the text,
  in order (Tab for a forward slash, the character itself otherwise), followed by one
  Enter keystroke if and only if \<open>pressEnter\<close> is set, and nothing else; its promise
  resolves.  \<open>typeText\<close> of the robotjs variant injects the same keystrokes without the
  leading Escape.
\<close>

theorem typeText_replays_text:
  assumes "never_throws kb" and "never_throws rb"
  shows "typeText kb text pressEnter s =
           (Resolved, s\<lparr>injected := injected s @ [PressKey Escape, ReleaseKey Escape]
                                       @ replay_spec text pressEnter\<rparr>) \<and>
         typeText_robot rb text pressEnter tr = Inr (tr @ replay_spec_robot text pressEnter)"
  using assms
  by (simp add: typeText_def typeText_try_never_throws typeText_robot_def
      type_batches_never_throws replay_spec_robot_def)

theorem typeText_replays_text_witness:
  "never_throws (reliable :: kbd_call injector) \<and> never_throws (reliable :: robot_call injector) \<and>
   injected (snd (typeText reliable [0x61, 0x2F, 0x62] True initial)) =
     [PressKey Escape, ReleaseKey Escape, TypeChar 0x61, PressKey Tab, ReleaseKey Tab,
      TypeChar 0x62, PressKey Enter, ReleaseKey Enter] \<and>
   typeText_robot reliable [0x61, 0x2F, 0x62] True [] =
     Inr [TypeString [0x61], KeyTap str_tab, TypeString [0x62], KeyTap str_enter]"
  using typeText_replays_text [OF never_throws_reliable never_throws_reliable,
      of "[0x61, 0x2F, 0x62]" True initial "[]"]
  by (simp add: never_throws_reliable replay_spec_def replay_spec_robot_def keystroke_def
      keystroke_robot_def slash_def initial_def)

text \<open>
  The claim as first stated allows no keystroke before the first character; \<open>index.js\<close>
  presses and releases Escape there.
\<close>

theorem typeText_escape_counterexample:
  "injected (snd (typeText reliable [0x61] False initial)) =
     [PressKey Escape, ReleaseKey Escape, TypeChar 0x61] \<and>
   injected initial @ replay_spec [0x61] False = [TypeChar 0x61]"
  by code_simp

section \<open>Properties of the card session controller\<close>

lemma say_fields [simp]:
  "processingCard (say line s) = processingCard s"
  "lastProcessedCard (say line s) = lastProcessedCard s"
  "injected (say line s) = injected s"
  "console (say line s) = console s @ [line]"
  by (simp_all add: say_def)

lemma typeText_resolves: "fst (typeText kb text pressEnter s) = Resolved"
  by (simp add: typeText_def split: sum.split prod.split)

lemma typeText_fields [simp]:
  "processingCard (snd (typeText kb text pressEnter s)) = processingCard s"
  "lastProcessedCard (snd (typeText kb text pressEnter s)) = lastProcessedCard s"
  by (simp_all add: typeText_def split: sum.split prod.split)

lemma on_card_accepts: "fst (on_card u s) = (\<not> processingCard s \<and> lastProcessedCard s \<noteq> Some u)"
  by (simp add: on_card_def Let_def)

lemma on_card_fields:
  "processingCard (snd (on_card u s)) = (processingCard s \<or> fst (on_card u s))"
  "lastProcessedCard (snd (on_card u s)) =
     (if fst (on_card u s) then Some u else lastProcessedCard s)"
  "injected (snd (on_card u s)) = injected s"
  by (auto simp: on_card_def Let_def)

lemma on_card_off_fields:
  "processingCard (on_card_off u s) = processingCard s"
  "lastProcessedCard (on_card_off u s) =
     (if lastProcessedCard s = Some u then None else lastProcessedCard s)"
  "injected (on_card_off u s) = injected s"
  by (simp_all add: on_card_off_def Let_def)

lemma on_timer_fields [simp]:
  "processingCard (on_timer s) = False"
  "lastProcessedCard (on_timer s) = lastProcessedCard s"
  "injected (on_timer s) = injected s"
  by (simp_all add: on_timer_def)

lemma catch_block_fields [simp]:
  "processingCard (catch_block err s) = False"
  "lastProcessedCard (catch_block err s) = lastProcessedCard s"
  "injected (catch_block err s) = injected s"
  by (simp_all add: catch_block_def)

text \<open>The last segment of the pipeline, with the promise of \<open>typeText\<close> resolved.\<close>

lemma typing_case:
  "(case typeText kb text pressEnter s of
      (Resolved, s') \<Rightarrow> (True, s')
    | (Rejected err, s') \<Rightarrow> (False, catch_block err s')) =
   (True, snd (typeText kb text pressEnter s))"
  using typeText_resolves [of kb "text" pressEnter s]
  by (cases "typeText kb text pressEnter s") simp

lemma on_read_settled_last [simp]:
  "lastProcessedCard (snd (on_read_settled env r s)) = lastProcessedCard s"
  by (simp add: on_read_settled_def typing_case split: sum.split option.split)

lemma on_read_settled_flag:
  "processingCard (snd (on_read_settled env r s)) =
     (fst (on_read_settled env r s) \<and> processingCard s)"
  by (simp add: on_read_settled_def typing_case split: sum.split option.split)

lemma step_last_other:
  assumes "lastProcessedCard s = Some a" and "ev \<noteq> CardOff a"
    and "\<forall>b. ev = Card b \<and> fst (on_card b s) \<longrightarrow> b = a"
  shows "lastProcessedCard (step env s ev) = Some a"
  using assms by (cases ev) (auto simp: on_card_fields on_card_off_fields)

lemma started_none_while_recorded:
  assumes "lastProcessedCard s = Some a" and "CardOff a \<notin> set evs"
    and "set (started env s evs) \<subseteq> {a}"
  shows "started env s evs = []"
  using assms
proof (induction evs arbitrary: s)
  case Nil
  then show ?case by simp
next
  case (Cons ev evs)
  show ?case
  proof (cases ev)
    case (Card b)
    have no: "\<not> fst (on_card b s)"
    proof
      assume acc: "fst (on_card b s)"
      with Cons.prems(3) Card have "b = a" by simp
      with acc Cons.prems(1) show False by (simp add: on_card_accepts)
    qed
    then have "lastProcessedCard (step env s ev) = Some a"
      using Cons.prems(1) Card by (simp add: on_card_fields)
    moreover have "set (started env (step env s ev) evs) \<subseteq> {a}"
      using Cons.prems(3) Card no by simp
    ultimately have "started env (step env s ev) evs = []"
      using Cons.prems(2) by (intro Cons.IH) auto
    with Card no show ?thesis by simp
  next
    case (CardOff b)
    with Cons.prems have "lastProcessedCard (step env s ev) = Some a"
      by (auto simp: on_card_off_fields)
    moreover have "set (started env (step env s ev) evs) \<subseteq> {a}"
      using Cons.prems(3) CardOff by simp
    ultimately have "started env (step env s ev) evs = []"
      using Cons.prems(2) by (intro Cons.IH) auto
    with CardOff show ?thesis by simp
  next
    case (ReadSettled r)
    with Cons.prems have "lastProcessedCard (step env s ev) = Some a" by simp
    moreover have "set (started env (step env s ev) evs) \<subseteq> {a}"
      using Cons.prems(3) ReadSettled by simp
    ultimately have "started env (step env s ev) evs = []"
      using Cons.prems(2) by (intro Cons.IH) auto
    with ReadSettled show ?thesis by simp
  next
    case TimerFired
    with Cons.prems have "lastProcessedCard (step env s ev) = Some a" by simp
    moreover have "set (started env (step env s ev) evs) \<subseteq> {a}"
      using Cons.prems(3) TimerFired by simp
    ultimately have "started env (step env s ev) evs = []"
      using Cons.prems(2) by (intro Cons.IH) auto
    with TimerFired show ?thesis by simp
  qed
qed

lemma started_at_most_once:
  assumes "CardOff a \<notin> set evs" and "set (started env s evs) \<subseteq> {a}"
  shows "length (started env s evs) \<le> 1"
  using assms
proof (induction evs arbitrary: s)
  case Nil
  then show ?case by simp
next
  case (Cons ev evs)
  show ?case
  proof (cases "\<exists>b. ev = Card b \<and> fst (on_card b s)")
    case True
    then obtain b where b: "ev = Card b" "fst (on_card b s)" by blast
    from Cons.prems(2) b have ba: "b = a"
      and rest: "set (started env (step env s ev) evs) \<subseteq> {a}" by auto
    from b ba have "lastProcessedCard (step env s ev) = Some a" by (simp add: on_card_fields)
    moreover note rest
    ultimately have "started env (step env s ev) evs = []"
      using Cons.prems(1) by (intro started_none_while_recorded) auto
    with b show ?thesis by simp
  next
    case False
    then have same: "started env s (ev # evs) = started env (step env s ev) evs"
      by (cases ev) auto
    with Cons.prems have "length (started env (step env s ev) evs) \<le> 1"
      by (intro Cons.IH) auto
    with same show ?thesis by simp
  qed
qed

lemma run_Cons: "run env s (ev # evs) = run env (step env s ev) evs"
  by (simp add: run_def)

lemma run_snoc: "run env s (evs @ [ev]) = step env (run env s evs) ev"
  by (simp add: run_def)

lemma run_not_recorded:
  assumes "lastProcessedCard s \<noteq> Some a" and "Card a \<notin> set evs"
  shows "lastProcessedCard (run env s evs) \<noteq> Some a"
  using assms
proof (induction evs arbitrary: s)
  case Nil
  then show ?case by (simp add: run_def)
next
  case (Cons ev evs)
  have "lastProcessedCard (step env s ev) \<noteq> Some a"
    using Cons.prems by (cases ev) (auto simp: on_card_fields on_card_off_fields)
  with Cons.prems(2) have "lastProcessedCard (run env (step env s ev) evs) \<noteq> Some a"
    by (intro Cons.IH) auto
  then show ?case by (simp add: run_Cons)
qed

text \<open>
  Claim C3, as amended.  In a sequence of events with no card-removed event for a card
  and in which no pipeline starts for any other card, the pipeline starts at most once,
  however often that card is detected.  After a card-removed event for a card, and with
  no further detection of it in between, the next card-detected event for that card
  starts the pipeline exactly when the processing flag is clear at that moment.  A
  card-removed event clears the stored identifier only when it is the removed card's.
\<close>

theorem duplicate_guard:
  "(CardOff a \<notin> set evs \<and> set (started env s evs) \<subseteq> {a} \<longrightarrow> length (started env s evs) \<le> 1) \<and>
   (Card a \<notin> set evs \<longrightarrow>
      fst (on_card a (run env s (CardOff a # evs))) =
        (\<not> processingCard (run env s (CardOff a # evs)))) \<and>
   lastProcessedCard (on_card_off b s) =
     (if lastProcessedCard s = Some b then None else lastProcessedCard s)"
proof (intro conjI impI)
  assume "CardOff a \<notin> set evs \<and> set (started env s evs) \<subseteq> {a}"
  then show "length (started env s evs) \<le> 1"
    by (intro started_at_most_once) auto
next
  assume no: "Card a \<notin> set evs"
  have "lastProcessedCard (on_card_off a s) \<noteq> Some a"
    by (simp add: on_card_off_fields)
  then have "lastProcessedCard (run env (on_card_off a s) evs) \<noteq> Some a"
    using no by (rule run_not_recorded)
  then show "fst (on_card a (run env s (CardOff a # evs))) =
      (\<not> processingCard (run env s (CardOff a # evs)))"
    by (simp add: run_Cons on_card_accepts)
next
  show "lastProcessedCard (on_card_off b s) =
     (if lastProcessedCard s = Some b then None else lastProcessedCard s)"
    by (simp add: on_card_off_fields)
qed


theorem duplicate_guard_witness:
  "CardOff card_A \<notin> set [Card card_A, ReadSettled (Inl ReadError), Card card_A] \<and>
   set (started tag_decoders initial [Card card_A, ReadSettled (Inl ReadError), Card card_A])
     \<subseteq> {card_A} \<and>
   length (started tag_decoders initial [Card card_A, ReadSettled (Inl ReadError), Card card_A])
     \<le> 1 \<and>
   Card card_A \<notin> set [TimerFired] \<and>
   fst (on_card card_A (run tag_decoders
         (run tag_decoders initial [Card card_A, ReadSettled (Inr hi_tag)])
         [CardOff card_A, TimerFired]))"
proof -
  let ?env = "tag_decoders"
  let ?evs = "[Card card_A, ReadSettled (Inl ReadError), Card card_A]"
  let ?s = "run ?env initial [Card card_A, ReadSettled (Inr hi_tag)]"
  have st: "started ?env initial ?evs = [card_A]" by code_simp
  have fl: "\<not> processingCard (run ?env ?s [CardOff card_A, TimerFired])"
    by (simp add: run_def)
  show ?thesis
    using st fl duplicate_guard [of card_A ?evs ?env initial]
      duplicate_guard [of card_A "[TimerFired]" ?env ?s]
    by simp
qed

text \<open>
  The claim as first stated fails in two ways.  The stored identifier is the last
  accepted card's only: once another card was accepted, a second detection of the first
  card starts its pipeline again with no removal in between.  And for one second after a
  replay the processing flag is still set: a card removed and presented again within
  that time is ignored.
\<close>

theorem duplicate_guard_counterexample:
  "deliverable tag_decoders initial 0 0
     [Card card_A, ReadSettled (Inr hi_tag), TimerFired,
      Card card_B, ReadSettled (Inr hi_tag), TimerFired, Card card_A] \<and>
   started tag_decoders initial
     [Card card_A, ReadSettled (Inr hi_tag), TimerFired,
      Card card_B, ReadSettled (Inr hi_tag), TimerFired, Card card_A] = [card_A, card_B, card_A] \<and>
   deliverable tag_decoders initial 0 0
     [Card card_A, ReadSettled (Inr hi_tag), CardOff card_A, Card card_A] \<and>
   lastProcessedCard (run tag_decoders initial [Card card_A, ReadSettled (Inr hi_tag)])
     = Some card_A \<and>
   started tag_decoders initial
     [Card card_A, ReadSettled (Inr hi_tag), CardOff card_A, Card card_A] = [card_A]"
  by code_simp

lemma deliver_invariant:
  assumes "deliver env s reads timers evs = Some (s', reads', timers')"
    and "processingCard s \<longleftrightarrow> reads + timers = 1" and "reads + timers \<le> 1"
  shows "(processingCard s' \<longleftrightarrow> reads' + timers' = 1) \<and> reads' + timers' \<le> 1"
  using assms
proof (induction evs arbitrary: s reads timers)
  case Nil
  then show ?case by simp
next
  case (Cons ev evs)
  show ?case
  proof (cases ev)
    case (Card u)
    let ?reads = "if fst (on_card u s) then reads + 1 else reads"
    from Cons.prems(1) Card
    have d: "deliver env (step env s ev) ?reads timers evs = Some (s', reads', timers')"
      by simp
    have "processingCard (step env s ev) \<longleftrightarrow> ?reads + timers = 1"
      and "?reads + timers \<le> 1"
      using Cons.prems(2,3) Card by (auto simp: on_card_fields on_card_accepts)
    with d show ?thesis by (rule Cons.IH)
  next
    case (CardOff u)
    from Cons.prems(1) CardOff
    have d: "deliver env (step env s ev) reads timers evs = Some (s', reads', timers')"
      by simp
    have "processingCard (step env s ev) \<longleftrightarrow> reads + timers = 1"
      using Cons.prems(2) CardOff by (simp add: on_card_off_fields)
    with d show ?thesis using Cons.prems(3) by (rule Cons.IH)
  next
    case (ReadSettled r)
    let ?timers = "if fst (on_read_settled env r s) then timers + 1 else timers"
    from Cons.prems(1) ReadSettled have pos: "reads > 0"
      by (simp split: if_splits)
    with Cons.prems(1) ReadSettled
    have d: "deliver env (step env s ev) (reads - 1) ?timers evs = Some (s', reads', timers')"
      by simp
    have "processingCard (step env s ev) \<longleftrightarrow> (reads - 1) + ?timers = 1"
      and "(reads - 1) + ?timers \<le> 1"
      using Cons.prems(2,3) ReadSettled pos by (auto simp: on_read_settled_flag)
    with d show ?thesis by (rule Cons.IH)
  next
    case TimerFired
    from Cons.prems(1) TimerFired have pos: "timers > 0"
      by (simp split: if_splits)
    with Cons.prems(1) TimerFired
    have d: "deliver env (step env s ev) reads (timers - 1) evs = Some (s', reads', timers')"
      by simp
    have "processingCard (step env s ev) \<longleftrightarrow> reads + (timers - 1) = 1"
      and "reads + (timers - 1) \<le> 1"
      using Cons.prems(2,3) TimerFired pos by auto
    with d show ?thesis by (rule Cons.IH)
  qed
qed

text \<open>
  Claim C4.  When the handler's pipeline ends without scheduling the timer (the read
  failed, the scanner found nothing, a decoder threw, or there was no text record), the
  processing flag is clear at once.  When it ends by scheduling the timer, after the
  replay, the flag is clear once the timer has fired, whatever events are delivered in
  between.  So after every sequence of events delivered from the start, the flag is set
  exactly while one read or one timer is pending, and is clear when none is.
\<close>

theorem pipeline_releases_flag:
  "(\<not> fst (on_read_settled env r s) \<longrightarrow> \<not> processingCard (snd (on_read_settled env r s))) \<and>
   (fst (on_read_settled env r s) \<longrightarrow>
      \<not> processingCard (run env (snd (on_read_settled env r s)) (evs @ [TimerFired]))) \<and>
   (deliver env initial 0 0 evs = Some (s', reads, timers) \<longrightarrow>
      (processingCard s' \<longleftrightarrow> reads + timers = 1) \<and> reads + timers \<le> 1)"
proof (intro conjI impI)
  assume "\<not> fst (on_read_settled env r s)"
  then show "\<not> processingCard (snd (on_read_settled env r s))"
    by (simp add: on_read_settled_flag)
next
  show "\<not> processingCard (run env (snd (on_read_settled env r s)) (evs @ [TimerFired]))"
    by (simp add: run_snoc)
next
  assume d: "deliver env initial 0 0 evs = Some (s', reads, timers)"
  have "(processingCard s' \<longleftrightarrow> reads + timers = 1) \<and> reads + timers \<le> 1"
    using d by (rule deliver_invariant) (simp_all add: initial_def)
  then show "processingCard s' \<longleftrightarrow> reads + timers = 1" and "reads + timers \<le> 1"
    by simp_all
qed

theorem pipeline_releases_flag_witness:
  "processingCard (snd (on_card card_A initial)) \<and>
   \<not> fst (on_read_settled tag_decoders (Inl ReadError) (snd (on_card card_A initial))) \<and>
   \<not> processingCard
       (snd (on_read_settled tag_decoders (Inl ReadError) (snd (on_card card_A initial)))) \<and>
   fst (on_read_settled tag_decoders (Inr hi_tag) (snd (on_card card_A initial))) \<and>
   \<not> processingCard
       (run tag_decoders
          (snd (on_read_settled tag_decoders (Inr hi_tag) (snd (on_card card_A initial))))
          ([CardOff card_A, Card card_A] @ [TimerFired])) \<and>
   deliver tag_decoders initial 0 0 [Card card_A, ReadSettled (Inr hi_tag), TimerFired] =
     Some (run tag_decoders initial [Card card_A, ReadSettled (Inr hi_tag), TimerFired], 0, 0) \<and>
   \<not> processingCard
       (run tag_decoders initial [Card card_A, ReadSettled (Inr hi_tag), TimerFired])"
proof -
  let ?env = "tag_decoders"
  let ?s = "snd (on_card card_A initial)"
  let ?evs = "[Card card_A, ReadSettled (Inr hi_tag), TimerFired]"
  have a: "processingCard ?s" by code_simp
  have b: "\<not> fst (on_read_settled ?env (Inl ReadError) ?s)" by code_simp
  have c: "fst (on_read_settled ?env (Inr hi_tag) ?s)" by code_simp
  have d: "deliver ?env initial 0 0 ?evs = Some (run ?env initial ?evs, 0, 0)"
    using c by (simp add: run_def on_card_accepts initial_def)
  show ?thesis
    using a b c d pipeline_releases_flag [of ?env "Inl ReadError" ?s]
      pipeline_releases_flag [of ?env "Inr hi_tag" ?s "[CardOff card_A, Card card_A]"]
      pipeline_releases_flag [of ?env "Inl ReadError" ?s ?evs "run ?env initial ?evs" 0 0]
    by simp
qed

lemma textRecords_first:
  "find (\<lambda>record. rtype record = str_T) records = Some r \<Longrightarrow>
     length (textRecords records) \<noteq> 0 \<and> textRecords records ! 0 = r"
  by (induction records) (auto simp: textRecords_def split: if_splits)

text \<open>
  Claim C5, as amended.  The extraction step selects exactly the records whose type is
  \<open>"T"\<close>, whatever their Type-Name-Format: changing the Type-Name-Format of the records
  does not change which are selected.  When no record has type \<open>"T"\<close> the pipeline ends
  without a replay; otherwise the payload of the first record of type \<open>"T"\<close> is decoded
  and replayed.
\<close>

theorem text_record_selection:
  "(r \<in> set (textRecords records) \<longleftrightarrow> r \<in> set records \<and> rtype r = str_T) \<and>
   textRecords (map (tnf_update f) records) = map (tnf_update f) (textRecords records) \<and>
   (findNdefData data = Some msg \<and> decodeMessage env msg = Inr records \<and>
    (\<forall>r \<in> set records. rtype r \<noteq> str_T) \<longrightarrow>
      on_read_settled env (Inr data) s =
        (False, (say NoTextRecords s)\<lparr>processingCard := False\<rparr>)) \<and>
   (findNdefData data = Some msg \<and> decodeMessage env msg = Inr records \<and>
    find (\<lambda>record. rtype record = str_T) records = Some r1 \<longrightarrow>
      on_read_settled env (Inr data) s =
        (case decodePayload env (payload r1) of
           Inl err \<Rightarrow> (False, catch_block err s)
         | Inr text \<Rightarrow>
             (True, snd (typeText (keyboard env) text autoEnter
                           (say TypingText (say (TextFound text) s))))))"
proof (intro conjI impI)
  show "r \<in> set (textRecords records) \<longleftrightarrow> r \<in> set records \<and> rtype r = str_T"
    by (simp add: textRecords_def)
  show "textRecords (map (tnf_update f) records) = map (tnf_update f) (textRecords records)"
    by (simp add: textRecords_def filter_map comp_def)
next
  assume h: "findNdefData data = Some msg \<and> decodeMessage env msg = Inr records \<and>
    (\<forall>r \<in> set records. rtype r \<noteq> str_T)"
  then have "textRecords records = []"
    by (simp add: textRecords_def)
  with h show "on_read_settled env (Inr data) s =
      (False, (say NoTextRecords s)\<lparr>processingCard := False\<rparr>)"
    by (simp add: on_read_settled_def)
next
  assume h: "findNdefData data = Some msg \<and> decodeMessage env msg = Inr records \<and>
    find (\<lambda>record. rtype record = str_T) records = Some r1"
  then have "length (textRecords records) \<noteq> 0 \<and> textRecords records ! 0 = r1"
    by (intro textRecords_first) simp
  with h show "on_read_settled env (Inr data) s =
      (case decodePayload env (payload r1) of
         Inl err \<Rightarrow> (False, catch_block err s)
       | Inr text \<Rightarrow>
           (True, snd (typeText (keyboard env) text autoEnter
                         (say TypingText (say (TextFound text) s)))))"
    by (simp add: on_read_settled_def typing_case split: sum.split)
qed

theorem text_record_selection_witness:
  "findNdefData hi_tag = Some hi_message \<and>
   decodeMessage tag_decoders hi_message = Inr [hi_record] \<and>
   find (\<lambda>record. rtype record = str_T) [hi_record] = Some hi_record \<and>
   injected (snd (on_read_settled tag_decoders (Inr hi_tag) initial)) =
     [PressKey Escape, ReleaseKey Escape, TypeChar 0x68, TypeChar 0x69,
      PressKey Enter, ReleaseKey Enter] \<and>
   findNdefData uri_tag = Some uri_message \<and>
   decodeMessage tag_decoders uri_message = Inr [uri_record] \<and>
   rtype uri_record \<noteq> str_T \<and>
   on_read_settled tag_decoders (Inr uri_tag) initial =
     (False, (say NoTextRecords initial)\<lparr>processingCard := False\<rparr>)"
proof -
  have f: "findNdefData hi_tag = Some hi_message" by code_simp
  have d: "decodeMessage tag_decoders hi_message = Inr [hi_record]" by code_simp
  have r: "rtype hi_record = str_T" "payload hi_record = hi_payload"
    by (simp_all add: hi_record_def)
  have p: "decodePayload tag_decoders hi_payload = Inr str_hi" by code_simp
  have k: "keyboard tag_decoders = reliable" by (simp add: tag_decoders_def)
  have t: "injected (snd (typeText reliable str_hi autoEnter
              (say TypingText (say (TextFound str_hi) initial)))) =
     [PressKey Escape, ReleaseKey Escape, TypeChar 0x68, TypeChar 0x69,
      PressKey Enter, ReleaseKey Enter]" by code_simp
  have f': "findNdefData uri_tag = Some uri_message" by code_simp
  have d': "decodeMessage tag_decoders uri_message = Inr [uri_record]" by code_simp
  have n: "rtype uri_record \<noteq> str_T" by code_simp
  show ?thesis
    using f d r p k t f' d' n
      text_record_selection [of hi_record "[hi_record]" id hi_tag hi_message tag_decoders
        initial hi_record]
      text_record_selection [of uri_record "[uri_record]" id uri_tag uri_message tag_decoders
        initial uri_record]
    by simp
qed

text \<open>
  A record of type \<open>"T"\<close> whose Type-Name-Format is 2 (a media type) and not 1
  (well-known) is selected, and its text is typed.
\<close>

theorem text_record_selection_counterexample:
  "tnf media_record = 2 \<and> rtype media_record = str_T \<and>
   textRecords [media_record] = [media_record] \<and>
   findNdefData media_tag = Some media_message \<and>
   decodeMessage tag_decoders media_message = Inr [media_record] \<and>
   injected (run tag_decoders initial [Card card_A, ReadSettled (Inr media_tag)]) =
     [PressKey Escape, ReleaseKey Escape, TypeChar 0x68, TypeChar 0x69,
      PressKey Enter, ReleaseKey Enter]"
  by code_simp

lemma recorded_persists:
  assumes "lastProcessedCard s = Some a" and "CardOff a \<notin> set evs"
    and "set (started env s evs) \<subseteq> {a}"
  shows "lastProcessedCard (run env s evs) = Some a"
  using assms
proof (induction evs arbitrary: s)
  case Nil
  then show ?case by (simp add: run_def)
next
  case (Cons ev evs)
  have sub: "set (started env (step env s ev) evs) \<subseteq> {a}"
    using Cons.prems(3) by (cases ev) auto
  have "\<forall>b. ev = Card b \<and> fst (on_card b s) \<longrightarrow> b = a"
    using Cons.prems(3) by auto
  with Cons.prems have "lastProcessedCard (step env s ev) = Some a"
    by (intro step_last_other) auto
  with sub Cons.prems(2) have "lastProcessedCard (run env (step env s ev) evs) = Some a"
    by (intro Cons.IH) auto
  then show ?case by (simp add: run_Cons)
qed

text \<open>
  Claim C7, as amended.  The stored identifier records every card the guard accepts, at
  acceptance and whatever becomes of its pipeline: until a card-removed event for it or
  the acceptance of another card, the identifier stays stored and a repeated detection
  of the card is suppressed.  After a pipeline that ended without a replay, a
  card-removed event for the card lets its next detection start the pipeline again.
\<close>

theorem accepted_card_stays_recorded:
  "(fst (on_card u s) \<and> CardOff u \<notin> set evs \<and> set (started env (step env s (Card u)) evs) \<subseteq> {u}
      \<longrightarrow> lastProcessedCard (run env s (Card u # evs)) = Some u \<and>
          \<not> fst (on_card u (run env s (Card u # evs)))) \<and>
   (fst (on_card u s) \<and> \<not> fst (on_read_settled env r (step env s (Card u)))
      \<longrightarrow> fst (on_card u (run env s [Card u, ReadSettled r, CardOff u])))"
proof (intro conjI impI)
  assume h: "fst (on_card u s) \<and> CardOff u \<notin> set evs \<and>
    set (started env (step env s (Card u)) evs) \<subseteq> {u}"
  then have "lastProcessedCard (step env s (Card u)) = Some u"
    by (simp add: on_card_fields)
  with h have "lastProcessedCard (run env (step env s (Card u)) evs) = Some u"
    by (intro recorded_persists) auto
  then show "lastProcessedCard (run env s (Card u # evs)) = Some u"
    and "\<not> fst (on_card u (run env s (Card u # evs)))"
    by (simp_all add: run_Cons on_card_accepts)
next
  assume h: "fst (on_card u s) \<and> \<not> fst (on_read_settled env r (step env s (Card u)))"
  then show "fst (on_card u (run env s [Card u, ReadSettled r, CardOff u]))"
    by (simp add: run_def on_card_accepts on_card_off_fields on_read_settled_flag)
qed

theorem accepted_card_stays_recorded_witness:
  "fst (on_card card_A initial) \<and>
   CardOff card_A \<notin> set [ReadSettled (Inl ReadError)] \<and>
   set (started tag_decoders (step tag_decoders initial (Card card_A))
          [ReadSettled (Inl ReadError)]) \<subseteq> {card_A} \<and>
   \<not> fst (on_read_settled tag_decoders (Inl ReadError)
            (step tag_decoders initial (Card card_A))) \<and>
   lastProcessedCard (run tag_decoders initial [Card card_A, ReadSettled (Inl ReadError)])
     = Some card_A \<and>
   \<not> fst (on_card card_A
            (run tag_decoders initial [Card card_A, ReadSettled (Inl ReadError)])) \<and>
   fst (on_card card_A
         (run tag_decoders initial
            [Card card_A, ReadSettled (Inl ReadError), CardOff card_A]))"
proof -
  let ?env = "tag_decoders"
  have a: "fst (on_card card_A initial)" by code_simp
  have b: "started ?env (step ?env initial (Card card_A)) [ReadSettled (Inl ReadError)] = []"
    by simp
  have c: "\<not> fst (on_read_settled ?env (Inl ReadError) (step ?env initial (Card card_A)))"
    by (simp add: on_read_settled_def)
  show ?thesis
    using a b c
      accepted_card_stays_recorded [of card_A initial "[ReadSettled (Inl ReadError)]" ?env
        "Inl ReadError"]
    by simp
qed

text \<open>
  The claim as first stated says that a card whose read failed is not recorded.  It is:
  the identifier is stored before the read, and the \<open>catch\<close> block leaves it.
\<close>

theorem failed_card_counterexample:
  "deliverable tag_decoders initial 0 0
     [Card card_A, ReadSettled (Inl ReadError), Card card_A] \<and>
   console (run tag_decoders initial [Card card_A, ReadSettled (Inl ReadError)]) =
     [CardDetected card_A, ReadingTag, ErrorLine ReadError] \<and>
   lastProcessedCard (run tag_decoders initial [Card card_A, ReadSettled (Inl ReadError)])
     = Some card_A \<and>
   started tag_decoders initial [Card card_A, ReadSettled (Inl ReadError), Card card_A]
     = [card_A]"
  by code_simp


text \<open>
  Claim C8.  A buffer with neither a valid \<open>0x03\<close> TLV nor a record header byte, and
  every buffer shorter than three bytes, makes \<open>findNdefData\<close> return \<open>null\<close>.  The
  handler then writes its message and clears the processing flag; it calls no decoder,
  whichever they are, and injects no keystroke.
\<close>

theorem no_ndef_no_replay:
  "(\<not> contains_valid_tlv data \<and> \<not> contains_header data \<longrightarrow> findNdefData data = None) \<and>
   (length data < 3 \<longrightarrow> findNdefData data = None) \<and>
   (findNdefData data = None \<longrightarrow>
      on_read_settled env (Inr data) s = (False, (say NoValidNdef s)\<lparr>processingCard := False\<rparr>) \<and>
      injected (snd (on_read_settled env (Inr data) s)) = injected s)"
proof (intro conjI impI)
  assume h: "\<not> contains_valid_tlv data \<and> \<not> contains_header data"
  then have "tlv_loop data 0 = None"
    by (intro tlv_loop_none) (simp add: no_valid_tlv)
  moreover from h have "header_loop data 0 = None"
    by (intro header_loop_none) (simp add: no_header)
  ultimately show "findNdefData data = None"
    by (simp add: findNdefData_def)
next
  assume "length data < 3"
  then show "findNdefData data = None"
    by (simp add: findNdefData_def tlv_loop_end header_loop_end)
next
  assume h: "findNdefData data = None"
  then show "on_read_settled env (Inr data) s =
      (False, (say NoValidNdef s)\<lparr>processingCard := False\<rparr>)"
    and "injected (snd (on_read_settled env (Inr data) s)) = injected s"
    by (simp_all add: on_read_settled_def)
qed

theorem no_ndef_no_replay_witness:
  "\<not> contains_valid_tlv [0x00, 0x10, 0x7F, 0x20, 0x01] \<and>
   \<not> contains_header [0x00, 0x10, 0x7F, 0x20, 0x01] \<and>
   findNdefData [0x00, 0x10, 0x7F, 0x20, 0x01] = None \<and>
   length [0x03, 0x00 :: byte] < 3 \<and>
   findNdefData [0x03, 0x00] = None \<and>
   on_read_settled tag_decoders (Inr [0x00, 0x10, 0x7F, 0x20, 0x01]) initial =
     (False, (say NoValidNdef initial)\<lparr>processingCard := False\<rparr>)"
proof -
  let ?d = "[0x00, 0x10, 0x7F, 0x20, 0x01] :: buffer"
  have t: "\<not> contains_valid_tlv ?d" by code_simp
  have h: "\<not> contains_header ?d" by code_simp
  show ?thesis
    using t h no_ndef_no_replay [of ?d "tag_decoders" initial]
      no_ndef_no_replay [of "[0x03, 0x00]"]
    by simp
qed

text \<open>
  Claim C9.  The promise of \<open>typeText\<close> resolves for every text and every behaviour of
  the keyboard.  An error thrown by a keyboard call is caught and written to the
  console, and the promise resolves all the same.  The handler goes on in the same way
  whether or not the keyboard threw: the same outcome and the same two variables.
\<close>

theorem typeText_always_resolves:
  "fst (typeText kb text pressEnter s) = Resolved \<and>
   (typeText_try kb text pressEnter (injected s) = Inl (err, tr) \<longrightarrow>
      typeText kb text pressEnter s = (Resolved, say (TypingError err) (s\<lparr>injected := tr\<rparr>))) \<and>
   fst (on_read_settled (env\<lparr>keyboard := kb\<rparr>) r s) =
     fst (on_read_settled (env\<lparr>keyboard := kb'\<rparr>) r s) \<and>
   processingCard (snd (on_read_settled (env\<lparr>keyboard := kb\<rparr>) r s)) =
     processingCard (snd (on_read_settled (env\<lparr>keyboard := kb'\<rparr>) r s)) \<and>
   lastProcessedCard (snd (on_read_settled (env\<lparr>keyboard := kb\<rparr>) r s)) =
     lastProcessedCard (snd (on_read_settled (env\<lparr>keyboard := kb'\<rparr>) r s))"
proof (intro conjI impI)
  show "fst (typeText kb text pressEnter s) = Resolved"
    by (rule typeText_resolves)
  show "fst (on_read_settled (env\<lparr>keyboard := kb\<rparr>) r s) =
     fst (on_read_settled (env\<lparr>keyboard := kb'\<rparr>) r s)"
    by (simp add: on_read_settled_def typing_case split: sum.split option.split)
  then show "processingCard (snd (on_read_settled (env\<lparr>keyboard := kb\<rparr>) r s)) =
     processingCard (snd (on_read_settled (env\<lparr>keyboard := kb'\<rparr>) r s))"
    by (simp add: on_read_settled_flag)
  show "lastProcessedCard (snd (on_read_settled (env\<lparr>keyboard := kb\<rparr>) r s)) =
     lastProcessedCard (snd (on_read_settled (env\<lparr>keyboard := kb'\<rparr>) r s))"
    by simp
next
  assume "typeText_try kb text pressEnter (injected s) = Inl (err, tr)"
  then show "typeText kb text pressEnter s =
      (Resolved, say (TypingError err) (s\<lparr>injected := tr\<rparr>))"
    by (simp add: typeText_def)
qed

theorem typeText_always_resolves_witness:
  "typeText_try (\<lambda>tr c. c = TypeChar 0x69) str_hi True (injected initial) =
     Inl (KeyboardError, [PressKey Escape, ReleaseKey Escape, TypeChar 0x68]) \<and>
   typeText (\<lambda>tr c. c = TypeChar 0x69) str_hi True initial =
     (Resolved, say (TypingError KeyboardError)
        (initial\<lparr>injected := [PressKey Escape, ReleaseKey Escape, TypeChar 0x68]\<rparr>)) \<and>
   fst (on_read_settled (tag_decoders\<lparr>keyboard := \<lambda>tr c. c = TypeChar 0x69\<rparr>)
          (Inr hi_tag) initial)"
proof -
  let ?kb = "\<lambda>tr c. c = TypeChar (0x69 :: js_char)"
  have b: "typeText_try ?kb str_hi True (injected initial) =
     Inl (KeyboardError, [PressKey Escape, ReleaseKey Escape, TypeChar 0x68])" by code_simp
  have c: "fst (on_read_settled (tag_decoders\<lparr>keyboard := reliable\<rparr>) (Inr hi_tag) initial)"
    by code_simp
  show ?thesis
    using b c typeText_always_resolves [of ?kb str_hi True initial KeyboardError
        "[PressKey Escape, ReleaseKey Escape, TypeChar 0x68]" "tag_decoders" "Inr hi_tag" reliable]
    by simp
qed

section \<open>The two variants at the card-detected interface\<close>

lemma started_robot_all: "started_robot env sr evs = cards_of evs"
proof (induction evs arbitrary: sr)
  case Nil
  then show ?case by simp
next
  case (Cons ev evs)
  then show ?case by (cases ev) (simp_all add: on_card_robot_def)
qed

lemma started_bounded: "length (started env s evs) \<le> length (cards_of evs)"
proof (induction evs arbitrary: s)
  case Nil
  then show ?case by simp
next
  case (Cons ev evs)
  have "length (started env (step env s ev) evs) \<le> length (cards_of evs)"
    by (rule Cons.IH)
  then show ?case by (cases ev) simp_all
qed

lemma started_cards: "set (started env s evs) \<subseteq> set (cards_of evs)"
proof (induction evs arbitrary: s)
  case Nil
  then show ?case by simp
next
  case (Cons ev evs)
  have "set (started env (step env s ev) evs) \<subseteq> set (cards_of evs)"
    by (rule Cons.IH)
  then show ?case by (cases ev) auto
qed

lemma repeated_card_fewer:
  assumes "CardOff u \<notin> set evs" and "set (cards_of evs) \<subseteq> {u}" and "2 \<le> length (cards_of evs)"
  shows "length (started env s evs) < length (started_robot env' sr evs)"
proof -
  have "set (started env s evs) \<subseteq> {u}"
    using started_cards [of env s evs] assms(2) by blast
  with assms(1) have "length (started env s evs) \<le> 1"
    by (rule started_at_most_once)
  with assms(3) show ?thesis by (simp add: started_robot_all)
qed

lemma pending_suppresses:
  assumes "deliver env initial 0 0 evs = Some (s', reads, timers)" and "0 < reads + timers"
  shows "\<not> fst (on_card u s')"
proof -
  have "(processingCard s' \<longleftrightarrow> reads + timers = 1) \<and> reads + timers \<le> 1"
    using assms(1) by (rule deliver_invariant) (simp_all add: initial_def)
  with assms(2) have "processingCard s'" by auto
  then show ?thesis by (simp add: on_card_accepts)
qed

lemma robot_pipeline_console:
  assumes "never_throws (keyboard env)"
  shows "console_robot (on_read_settled_robot env r sr) =
    console_robot sr @ drop (length (console s)) (console (snd (on_read_settled env r s)))"
  using assms
  by (simp add: on_read_settled_def on_read_settled_robot_def typing_case typeText_def
      typeText_try_never_throws say_def say_robot_def catch_block_def
      split: sum.split option.split)

lemma robot_pipeline_no_replay:
  "\<not> fst (on_read_settled env r s) \<longrightarrow>
     replays (on_read_settled_robot env r sr) = replays sr"
  by (simp add: on_read_settled_def on_read_settled_robot_def typing_case say_robot_def
      split: sum.split option.split)

lemma robot_pipeline_replay:
  assumes "never_throws (keyboard env)"
  shows "fst (on_read_settled env r s) \<longrightarrow>
    (\<exists>text. replays (on_read_settled_robot env r sr) = replays sr @ [(text, autoEnter)] \<and>
      injected (snd (on_read_settled env r s)) =
        injected s @ [PressKey Escape, ReleaseKey Escape] @ replay_spec text autoEnter \<and>
      (\<forall>rb tr. never_throws rb \<longrightarrow>
         typeText_robot rb text autoEnter tr = Inr (tr @ replay_spec_robot text autoEnter)))"
  using assms
  by (simp add: on_read_settled_def on_read_settled_robot_def typing_case typeText_def
      typeText_try_never_throws say_def say_robot_def typeText_robot_def
      type_batches_never_throws replay_spec_robot_def
      split: sum.split option.split)

text \<open>
  Claim C10, as amended.  The two variants differ at the card-detected interface.  The
  robotjs variant keeps no flag and no identifier and starts its pipeline for every
  card-detected event; when the read settles it scans, decodes and writes to the console
  as \<open>index.js\<close> does, and schedules the replay of the same text whenever \<open>index.js\<close>
  types it.  \<open>index.js\<close> starts the pipeline exactly when the processing flag is clear
  and the identifier is not the stored one.  So it suppresses every detection that arrives
  while a read or the timer of an earlier pipeline is pending, and when one card is
  detected two or more times with no removal and no other card in between it starts
  strictly fewer pipelines than the robotjs variant.
\<close>

theorem variants_differ:
  "started_robot env sr evs = cards_of evs \<and>
   fst (on_card_robot u sr) \<and>
   length (started env s evs) \<le> length (cards_of evs) \<and>
   (fst (on_card u s) \<longleftrightarrow> \<not> processingCard s \<and> lastProcessedCard s \<noteq> Some u) \<and>
   (deliver env initial 0 0 evs = Some (s', reads, timers) \<and> 0 < reads + timers \<longrightarrow>
      \<not> fst (on_card u s')) \<and>
   (CardOff u \<notin> set evs \<and> set (cards_of evs) \<subseteq> {u} \<and> 2 \<le> length (cards_of evs) \<longrightarrow>
      length (started env s evs) < length (started_robot env sr evs)) \<and>
   (never_throws (keyboard env) \<longrightarrow>
      console_robot (on_read_settled_robot env r sr) =
        console_robot sr @ drop (length (console s)) (console (snd (on_read_settled env r s)))) \<and>
   (\<not> fst (on_read_settled env r s) \<longrightarrow> replays (on_read_settled_robot env r sr) = replays sr) \<and>
   (fst (on_read_settled env r s) \<and> never_throws (keyboard env) \<longrightarrow>
      (\<exists>text. replays (on_read_settled_robot env r sr) = replays sr @ [(text, autoEnter)] \<and>
         injected (snd (on_read_settled env r s)) =
           injected s @ [PressKey Escape, ReleaseKey Escape] @ replay_spec text autoEnter \<and>
         (\<forall>rb tr. never_throws rb \<longrightarrow>
            typeText_robot rb text autoEnter tr = Inr (tr @ replay_spec_robot text autoEnter))))"
proof (intro conjI impI)
  show "started_robot env sr evs = cards_of evs"
    by (rule started_robot_all)
  show "fst (on_card_robot u sr)"
    by (simp add: on_card_robot_def)
  show "length (started env s evs) \<le> length (cards_of evs)"
    by (rule started_bounded)
  show "fst (on_card u s) \<longleftrightarrow> \<not> processingCard s \<and> lastProcessedCard s \<noteq> Some u"
    by (rule on_card_accepts)
next
  assume "deliver env initial 0 0 evs = Some (s', reads, timers) \<and> 0 < reads + timers"
  then show "\<not> fst (on_card u s')"
    by (intro pending_suppresses [of env evs s' reads timers]) simp_all
next
  assume "CardOff u \<notin> set evs \<and> set (cards_of evs) \<subseteq> {u} \<and> 2 \<le> length (cards_of evs)"
  then show "length (started env s evs) < length (started_robot env sr evs)"
    by (intro repeated_card_fewer [of u]) simp_all
next
  assume "never_throws (keyboard env)"
  then show "console_robot (on_read_settled_robot env r sr) =
      console_robot sr @ drop (length (console s)) (console (snd (on_read_settled env r s)))"
    by (rule robot_pipeline_console)
next
  assume "\<not> fst (on_read_settled env r s)"
  then show "replays (on_read_settled_robot env r sr) = replays sr"
    using robot_pipeline_no_replay [of env r s sr] by simp
next
  assume "fst (on_read_settled env r s) \<and> never_throws (keyboard env)"
  then show "\<exists>text. replays (on_read_settled_robot env r sr) = replays sr @ [(text, autoEnter)] \<and>
      injected (snd (on_read_settled env r s)) =
        injected s @ [PressKey Escape, ReleaseKey Escape] @ replay_spec text autoEnter \<and>
      (\<forall>rb tr. never_throws rb \<longrightarrow>
         typeText_robot rb text autoEnter tr = Inr (tr @ replay_spec_robot text autoEnter))"
    using robot_pipeline_replay [of env r s sr] by simp
qed


theorem variants_differ_witness:
  "deliver tag_decoders initial 0 0 [Card card_A, ReadSettled (Inr hi_tag)] =
     Some (run tag_decoders initial [Card card_A, ReadSettled (Inr hi_tag)], 0, 1) \<and>
   \<not> fst (on_card card_B (run tag_decoders initial [Card card_A, ReadSettled (Inr hi_tag)])) \<and>
   CardOff card_A \<notin> set [Card card_A, Card card_A] \<and>
   length (started tag_decoders initial [Card card_A, Card card_A])
     < length (started_robot tag_decoders initial_robot [Card card_A, Card card_A]) \<and>
   never_throws (keyboard tag_decoders) \<and>
   fst (on_read_settled tag_decoders (Inr hi_tag) initial) \<and>
   replays (on_read_settled_robot tag_decoders (Inr hi_tag) initial_robot) = [(str_hi, True)] \<and>
   console_robot (on_read_settled_robot tag_decoders (Inr hi_tag) initial_robot) =
     console_robot initial_robot @
       drop (length (console initial))
         (console (snd (on_read_settled tag_decoders (Inr hi_tag) initial))) \<and>
   \<not> fst (on_read_settled tag_decoders (Inl ReadError) initial) \<and>
   replays (on_read_settled_robot tag_decoders (Inl ReadError) initial_robot) =
     replays initial_robot"
proof -
  let ?evs1 = "[Card card_A, ReadSettled (Inr hi_tag)]"
  let ?evs2 = "[Card card_A, Card card_A]"
  let ?s1 = "run tag_decoders initial ?evs1"
  have f: "fst (on_read_settled tag_decoders (Inr hi_tag) initial)" by code_simp
  have f': "fst (on_read_settled tag_decoders (Inr hi_tag) (snd (on_card card_A initial)))"
    by code_simp
  have d: "deliver tag_decoders initial 0 0 ?evs1 = Some (?s1, 0, 1)"
    using f' by (simp add: run_def on_card_accepts initial_def)
  have k: "never_throws (keyboard tag_decoders)"
    by (simp add: tag_decoders_def never_throws_reliable)
  have n: "\<not> fst (on_read_settled tag_decoders (Inl ReadError) initial)" by code_simp
  have c: "CardOff card_A \<notin> set ?evs2" "set (cards_of ?evs2) \<subseteq> {card_A}"
    "2 \<le> length (cards_of ?evs2)" by simp_all
  have p: "replays (on_read_settled_robot tag_decoders (Inr hi_tag) initial_robot) =
    [(str_hi, True)]" by code_simp
  note v1 = variants_differ [where env = tag_decoders and sr = initial_robot and evs = ?evs1
      and u = card_B and s = initial and s' = ?s1 and reads = 0 and timers = 1
      and r = "Inr hi_tag"]
  note v2 = variants_differ [where env = tag_decoders and sr = initial_robot and evs = ?evs2
      and u = card_A and s = initial and r = "Inl ReadError"]
  have a: "\<not> fst (on_card card_B ?s1)"
    using v1 d by simp
  have b: "length (started tag_decoders initial ?evs2)
      < length (started_robot tag_decoders initial_robot ?evs2)"
    using v2 c by blast
  have e: "console_robot (on_read_settled_robot tag_decoders (Inr hi_tag) initial_robot) =
     console_robot initial_robot @
       drop (length (console initial))
         (console (snd (on_read_settled tag_decoders (Inr hi_tag) initial)))"
    using v1 k by blast
  have g: "replays (on_read_settled_robot tag_decoders (Inl ReadError) initial_robot) =
     replays initial_robot"
    using v2 n by blast
  from d a c(1) b k f p e n g show ?thesis by blast
qed

text \<open>
  The claim as first stated says that \<open>index.js\<close> suppresses the repeated detection of
  a card that is still present.  It stores one identifier only: once another card was
  accepted, the first card's second detection starts its pipeline, with no removal in
  between, and on this sequence both variants start the same pipelines.
\<close>

theorem variants_agree_counterexample:
  "CardOff card_A \<notin> set [Card card_A, ReadSettled (Inr hi_tag), TimerFired,
      Card card_B, ReadSettled (Inr hi_tag), TimerFired, Card card_A] \<and>
   deliverable tag_decoders initial 0 0
     [Card card_A, ReadSettled (Inr hi_tag), TimerFired,
      Card card_B, ReadSettled (Inr hi_tag), TimerFired, Card card_A] \<and>
   started tag_decoders initial
     [Card card_A, ReadSettled (Inr hi_tag), TimerFired,
      Card card_B, ReadSettled (Inr hi_tag), TimerFired, Card card_A] = [card_A, card_B, card_A] \<and>
   started_robot tag_decoders initial_robot
     [Card card_A, ReadSettled (Inr hi_tag), TimerFired,
      Card card_B, ReadSettled (Inr hi_tag), TimerFired, Card card_A] = [card_A, card_B, card_A]"
  by code_simp

end
